theory Spec2Isabelle
  imports Main
begin

section \<open>The input validator of xeus-cpp (include/xeus-cpp/input\_validator.hpp)\<close>

subsection \<open>Tokens supplied by the lexer\<close>

text \<open>
  Modelled from the spec: the enumeration \<open>clang::tok::TokenKind\<close> is declared by the
  compiler toolchain (clang/Basic/TokenKinds.def), not by this repository. The kinds
  listed here are a selection of it, in the order of that file. \<open>kind_code\<close> is the
  position of a kind in this selection; in the toolchain's enumeration the absolute
  values are larger, but \<open>unknown\<close> is the first kind (value 0) and each closing bracket
  directly follows its opening bracket, which is all that the comparison
  \<open>token.getKind() == tos+1\<close> of the validator depends on ("closing kinds are defined
  to be the opener's enum value plus one").
\<close>

datatype TokenKind =
    tok_unknown | tok_eof | tok_eod | tok_comment
  | tok_identifier | tok_numeric_constant | tok_char_constant | tok_string_literal
  | tok_l_square | tok_r_square | tok_l_paren | tok_r_paren | tok_l_brace | tok_r_brace
  | tok_period | tok_amp | tok_star | tok_plus | tok_minus | tok_slash
  | tok_less | tok_lessless | tok_greater
  | tok_colon | tok_semi | tok_equal | tok_comma
  | tok_hash | tok_hashhash | tok_kw_if

fun kind_code :: "TokenKind \<Rightarrow> int" where
  "kind_code tok_unknown = 0"
| "kind_code tok_eof = 1"
| "kind_code tok_eod = 2"
| "kind_code tok_comment = 3"
| "kind_code tok_identifier = 4"
| "kind_code tok_numeric_constant = 5"
| "kind_code tok_char_constant = 6"
| "kind_code tok_string_literal = 7"
| "kind_code tok_l_square = 8"
| "kind_code tok_r_square = 9"
| "kind_code tok_l_paren = 10"
| "kind_code tok_r_paren = 11"
| "kind_code tok_l_brace = 12"
| "kind_code tok_r_brace = 13"
| "kind_code tok_period = 14"
| "kind_code tok_amp = 15"
| "kind_code tok_star = 16"
| "kind_code tok_plus = 17"
| "kind_code tok_minus = 18"
| "kind_code tok_slash = 19"
| "kind_code tok_less = 20"
| "kind_code tok_lessless = 21"
| "kind_code tok_greater = 22"
| "kind_code tok_colon = 23"
| "kind_code tok_semi = 24"
| "kind_code tok_equal = 25"
| "kind_code tok_comma = 26"
| "kind_code tok_hash = 27"
| "kind_code tok_hashhash = 28"
| "kind_code tok_kw_if = 29"

text \<open>
  A token as the validator reads it: its kind (\<open>getKind\<close>) and the characters that
  \<open>getCharacterData(getLocation())\<close> and \<open>getLength()\<close> delimit (\<open>getText\<close>).
\<close>

datatype token = Token (getKind: TokenKind) (getText: string)

text \<open>
  Modelled from the spec: the preprocessor is an external collaborator of which the
  validator uses the operation "lex next token" (\<open>preprocessor.Lex\<close>) only. The tokens
  it delivers during one call of \<open>validate\<close> are a list; once the list is used up, every
  further \<open>Lex\<close> delivers the end-of-file token, whose text is empty.
\<close>

definition eof_token :: token where
  "eof_token = Token tok_eof []"

fun Lex :: "token list \<Rightarrow> token \<times> token list" where
  "Lex [] = (eof_token, [])"
| "Lex (t # ts) = (t, ts)"

subsection \<open>Helpers of the standard library\<close>

definition startswith :: "string \<Rightarrow> string \<Rightarrow> bool" where
  "startswith s p = (take (length p) s = p)"

definition isspace :: "char \<Rightarrow> bool" where
  "isspace c = (c = CHR '' '' \<or> c = CHR 0x09 \<or> c = CHR 0x0A \<or> c = CHR 0x0B
                \<or> c = CHR 0x0C \<or> c = CHR 0x0D)"

subsection \<open>The validator\<close>

datatype ValidationResult = complete | incomplete | invalid | unknown

text \<open>
  The fields of \<open>input_validator\<close>. \<open>parenStack\<close> is a \<open>std::deque<int>\<close> used from its
  back: \<open>push_back\<close> appends, \<open>back\<close> is \<open>last\<close>, \<open>pop_back\<close> is \<open>butlast\<close>.
\<close>

record input_validator =
  input :: string
  parenStack :: "int list"
  lastResult :: ValidationResult

definition fresh :: input_validator where
  "fresh = \<lparr>input = [], parenStack = [], lastResult = complete\<rparr>"

text \<open>
  The condition of lines 66--67, evaluated on the stack after the closing bracket has
  popped its opener.
\<close>

definition pops_template :: "TokenKind \<Rightarrow> int list \<Rightarrow> bool" where
  "pops_template k st =
     (k = tok_r_brace \<and> length st = 1 \<and> last st = kind_code tok_less)"

text \<open>The test of lines 77--78 on the text of the token after a hash.\<close>

definition is_endif :: "string \<Rightarrow> bool" where
  "is_endif tokenText =
     (startswith tokenText ''endif'' \<and>
      (length tokenText = 5 \<or> tokenText ! 5 = CHR ''/'' \<or> isspace (tokenText ! 5)))"

text \<open>
  One pass through the body of the do-while loop (lines 47--86): lex a token and
  dispatch on its kind. The result is the token last lexed, the tokens still to come,
  the stack and the verdict. The entries of \<open>parenStack\<close> are the values of the kinds
  that were pushed, so the cast of line 58 back to a kind is left out.
\<close>

definition iteration ::
  "token list \<Rightarrow> int list \<Rightarrow> ValidationResult
     \<Rightarrow> token \<times> token list \<times> int list \<times> ValidationResult" where
  "iteration ts st res =
     (let (tok, ts1) = Lex ts; k = getKind tok in
      if k = tok_l_square \<or> k = tok_l_brace \<or> k = tok_l_paren then
        (tok, ts1, st @ [kind_code k], res)
      else if k = tok_r_square \<or> k = tok_r_brace \<or> k = tok_r_paren then
        (let tos = (if st = [] then kind_code tok_unknown else last st) in
         if \<not> (kind_code k = tos + 1) then (tok, ts1, st, invalid)
         else
           (let st1 = butlast st in
            if pops_template k st1 then (tok, ts1, butlast st1, res)
            else (tok, ts1, st1, res)))
      else if k = tok_hash then
        (let (tok2, ts2) = Lex ts1; tokenText = getText tok2 in
         if startswith tokenText ''if'' then (tok2, ts2, st @ [kind_code tok_hash], res)
         else if is_endif tokenText then
           (if st = [] \<or> last st \<noteq> kind_code tok_hash then (tok2, ts2, st, invalid)
            else (tok2, ts2, butlast st, res))
         else (tok2, ts2, st, res))
      else (tok, ts1, st, res))"

lemma iteration_shorter:
  assumes "iteration ts st res = (tok', ts', st', res')" and "getKind tok' \<noteq> tok_eof"
  shows "length ts' < length ts"
proof (cases ts)
  case Nil
  with assms show ?thesis
    by (auto simp: iteration_def eof_token_def startswith_def is_endif_def)
next
  case (Cons t ts1)
  show ?thesis
  proof (cases ts1)
    case Nil
    with Cons assms show ?thesis
      by (auto simp: iteration_def Let_def eof_token_def split: if_splits)
  next
    case (Cons t2 ts2)
    with \<open>ts = t # ts1\<close> assms show ?thesis
      by (auto simp: iteration_def Let_def split: if_splits)
  qed
qed

text \<open>
  The do-while loop of lines 45--87. \<open>token\<close> is the variable \<open>token\<close> on entry to the
  body; the loop returns \<open>lastSeenToken\<close>, the stack and the verdict.
\<close>

function loop ::
  "token \<Rightarrow> token list \<Rightarrow> int list \<Rightarrow> ValidationResult
     \<Rightarrow> token \<times> int list \<times> ValidationResult" where
  "loop token ts st res =
     (let lastSeenToken = token;
          (token', ts', st', res') = iteration ts st res in
      if getKind token' \<noteq> tok_eof \<and> res' \<noteq> invalid then loop token' ts' st' res'
      else (lastSeenToken, st', res'))"
  by pat_completeness auto
termination
proof (relation "measure (\<lambda>(token, ts, st, res). length ts)")
  show "wf (measure (\<lambda>(token :: token, ts :: token list, st :: int list,
                       res :: ValidationResult). length ts))"
    by simp
next
  fix token :: token and ts st res lastSeenToken x token' y ts' z st' res'
  assume "x = iteration ts st res" "(token', y) = x" "(ts', z) = y" "(st', res') = z"
    and "getKind token' \<noteq> tok_eof \<and> res' \<noteq> invalid"
  then have "iteration ts st res = (token', ts', st', res')" "getKind token' \<noteq> tok_eof"
    by auto
  then have "length ts' < length ts"
    by (rule iteration_shorter)
  then show "((token', ts', st', res'), (token, ts, st, res))
               \<in> measure (\<lambda>(token, ts, st, res). length ts)"
    by simp
qed

declare loop.simps [simp del]

text \<open>
  \<open>validate\<close> (lines 33--103). \<open>code\<close> is the fragment and \<open>ts\<close> the tokens that the
  preprocessor delivers for it. The local variables \<open>token\<close> and \<open>lastSeenToken\<close> are
  declared without an initial value (line 43); \<open>tok0\<close> stands for whatever \<open>token\<close>
  holds before the first \<open>Lex\<close>, which the loop copies into \<open>lastSeenToken\<close>.
\<close>

definition validate ::
  "token \<Rightarrow> token list \<Rightarrow> string \<Rightarrow> input_validator
     \<Rightarrow> ValidationResult \<times> input_validator" where
  "validate tok0 ts code v =
     (let (lastSeenToken, st, res) = loop tok0 ts (parenStack v) complete;
          should_continue = (getKind lastSeenToken = tok_comma);
          result = (if should_continue \<or> (st \<noteq> [] \<and> res \<noteq> invalid) then incomplete
                    else res);
          input1 = (if input v \<noteq> [] then input v @ [CHR 0x0A] else input v)
      in (result, \<lparr>input = input1 @ code, parenStack = st, lastResult = result\<rparr>))"

text \<open>
  \<open>reset\<close> (lines 106--116). The argument is \<open>None\<close> for a null pointer and \<open>Some s\<close> for
  a pointer to a string holding \<open>s\<close>; the assertion of line 108 is an error value.
  On success the string pointed to (if any) is returned with the validator.
\<close>

datatype error = AssertionFailed

definition reset ::
  "string option \<Rightarrow> input_validator \<Rightarrow> error + (string option \<times> input_validator)" where
  "reset code v =
     (case code of
        Some s \<Rightarrow>
          (if s \<noteq> [] then Inl AssertionFailed
           else Inr (Some (input v), \<lparr>input = s, parenStack = [], lastResult = complete\<rparr>))
      | None \<Rightarrow> Inr (None, \<lparr>input = [], parenStack = [], lastResult = complete\<rparr>))"

subsection \<open>Notions used to state the properties\<close>

text \<open>Opening and closing brackets, and the closer that belongs to an opener.\<close>

definition is_opener :: "TokenKind \<Rightarrow> bool" where
  "is_opener k = (k = tok_l_square \<or> k = tok_l_brace \<or> k = tok_l_paren)"

definition is_closer :: "TokenKind \<Rightarrow> bool" where
  "is_closer k = (k = tok_r_square \<or> k = tok_r_brace \<or> k = tok_r_paren)"


fun matching_opener :: "TokenKind \<Rightarrow> TokenKind" where
  "matching_opener k =
     (if k = tok_r_square then tok_l_square
      else if k = tok_r_brace then tok_l_brace
      else if k = tok_r_paren then tok_l_paren
      else tok_unknown)"

text \<open>
  \<open>prefix_scan ts st\<close> runs the loop body over exactly the tokens \<open>ts\<close>, from the stack
  \<open>st\<close>: it is \<open>Some\<close> of the stack reached when every pass ends at a token of \<open>ts\<close>
  without the verdict \<open>invalid\<close>, and \<open>None\<close> when a pass sets \<open>invalid\<close>, meets an
  end-of-file token, or when \<open>ts\<close> ends with a hash whose directive name is missing.
\<close>

function prefix_scan :: "token list \<Rightarrow> int list \<Rightarrow> int list option" where
  "prefix_scan ts st =
     (if ts = [] then Some st
      else
        (let (token', ts', st', res') = iteration ts st complete in
         if getKind token' = tok_eof \<or> res' = invalid then None
         else prefix_scan ts' st'))"
  by pat_completeness auto
termination
proof (relation "measure (\<lambda>(ts, st). length ts)")
  show "wf (measure (\<lambda>(ts :: token list, st :: int list). length ts))"
    by simp
next
  fix ts st x token' y ts' z st' res'
  assume "x = iteration ts st complete" "(token', y) = x" "(ts', z) = y" "(st', res') = z"
    and "\<not> (getKind token' = tok_eof \<or> res' = invalid)"
  then have "iteration ts st complete = (token', ts', st', res')" "getKind token' \<noteq> tok_eof"
    by auto
  then have "length ts' < length ts"
    by (rule iteration_shorter)
  then show "((ts', st'), (ts, st)) \<in> measure (\<lambda>(ts, st). length ts)"
    by simp
qed

declare prefix_scan.simps [simp del]

text \<open>
  A turn: the calls of \<open>validate\<close> between two resets, each with the value of the
  uninitialised token, the tokens and the fragment. \<open>join_lines\<close> is the
  newline-joined concatenation.
\<close>

type_synonym call = "token \<times> token list \<times> string"

definition fragment :: "call \<Rightarrow> string" where
  "fragment c = snd (snd c)"

fun validate_all :: "call list \<Rightarrow> input_validator \<Rightarrow> input_validator" where
  "validate_all [] v = v"
| "validate_all ((tok0, ts, code) # cs) v = validate_all cs (snd (validate tok0 ts code v))"

fun join_lines :: "string list \<Rightarrow> string" where
  "join_lines [] = []"
| "join_lines [s] = s"
| "join_lines (s # t # ss) = s @ [CHR 0x0A] @ join_lines (t # ss)"

text \<open>
  A token without structural effect when the loop body dispatches on it: no bracket,
  no hash and not the end of file.
\<close>

definition plain :: "TokenKind \<Rightarrow> bool" where
  "plain k = (\<not> is_opener k \<and> \<not> is_closer k \<and> k \<noteq> tok_hash \<and> k \<noteq> tok_eof)"

text \<open>The four kinds that the specification lists as entries of the balance stack.\<close>

definition opener_codes :: "int set" where
  "opener_codes =
     {kind_code tok_l_square, kind_code tok_l_brace, kind_code tok_l_paren, kind_code tok_hash}"


text \<open>
  What one pass of the loop body sees at the head of the tokens \<open>ts\<close>: an opening
  bracket or an \<open>#if\<close>-class directive (\<open>pushes\<close>); a closing bracket or an \<open>#endif\<close>
  while the top of the stack \<open>st\<close> is the corresponding opener (\<open>pops\<close>). The token
  after a hash is the name of the directive, whatever its kind.
\<close>

definition pushes :: "token list \<Rightarrow> bool" where
  "pushes ts =
     (case ts of [] \<Rightarrow> False
      | t # ts1 \<Rightarrow>
          is_opener (getKind t) \<or>
          (getKind t = tok_hash \<and> startswith (getText (fst (Lex ts1))) ''if''))"

definition pops :: "token list \<Rightarrow> int list \<Rightarrow> bool" where
  "pops ts st =
     (case ts of [] \<Rightarrow> False
      | t # ts1 \<Rightarrow>
          st \<noteq> [] \<and>
          ((is_closer (getKind t) \<and> last st = kind_code (matching_opener (getKind t))) \<or>
           (getKind t = tok_hash \<and> is_endif (getText (fst (Lex ts1))) \<and>
            last st = kind_code tok_hash)))"

text \<open>
  The number of openers (opening brackets and \<open>#if\<close>-class directives) and of closers
  (closing brackets and \<open>#endif\<close> directives) in a token sequence, where the token after
  a hash is the name of the directive and counts neither as a bracket nor on its own.
\<close>

fun opened :: "token list \<Rightarrow> nat" where
  "opened [] = 0"
| "opened [t] = (if is_opener (getKind t) then 1 else 0)"
| "opened (t # d # ts) =
     (if getKind t = tok_hash then (if startswith (getText d) ''if'' then 1 else 0) + opened ts
      else (if is_opener (getKind t) then 1 else 0) + opened (d # ts))"

fun closed :: "token list \<Rightarrow> nat" where
  "closed [] = 0"
| "closed [t] = (if is_closer (getKind t) then 1 else 0)"
| "closed (t # d # ts) =
     (if getKind t = tok_hash then (if is_endif (getText d) then 1 else 0) + closed ts
      else (if is_closer (getKind t) then 1 else 0) + closed (d # ts))"

text \<open>
  The states a validator can be in: the freshly constructed one, and what \<open>validate\<close>
  (with any tokens, fragment and value of the uninitialised token) and a \<open>reset\<close> that
  passes its assertion make of a reachable state.
\<close>

inductive reachable :: "input_validator \<Rightarrow> bool" where
  reach_fresh: "reachable fresh"
| reach_validate: "reachable v \<Longrightarrow> reachable (snd (validate tok0 ts code v))"
| reach_reset: "reachable v \<Longrightarrow> reset c v = Inr (out, v') \<Longrightarrow> reachable v'"

text \<open>
  The tokens of the fragments that the specification names: \<open>Foo<Bar{1,2}>\<close>,
  \<open>foo(1, 2,\<close>, \<open>3)\<close>, \<open>#if X\<close> and \<open>#endif\<close>.
\<close>

definition Foo_toks :: "token list" where
  "Foo_toks =
     [Token tok_identifier ''Foo'', Token tok_less ''<'', Token tok_identifier ''Bar'',
      Token tok_l_brace ''{'', Token tok_numeric_constant ''1'', Token tok_comma '','',
      Token tok_numeric_constant ''2'', Token tok_r_brace ''}'', Token tok_greater ''>'']"

definition foo_call_toks :: "token list" where
  "foo_call_toks =
     [Token tok_identifier ''foo'', Token tok_l_paren ''('', Token tok_numeric_constant ''1'',
      Token tok_comma '','', Token tok_numeric_constant ''2'', Token tok_comma '','']"

definition three_toks :: "token list" where
  "three_toks = [Token tok_numeric_constant ''3'', Token tok_r_paren '')'']"

definition if_X_toks :: "token list" where
  "if_X_toks = [Token tok_hash ''#'', Token tok_kw_if ''if'', Token tok_identifier ''X'']"

definition endif_toks :: "token list" where
  "endif_toks = [Token tok_hash ''#'', Token tok_identifier ''endif'']"

section \<open>Properties\<close>

subsection \<open>The loop body and the loop\<close>

lemma iteration_Nil: "iteration [] st res = (eof_token, [], st, res)"
  by (simp add: iteration_def eof_token_def startswith_def is_endif_def)

lemma loop_Nil: "loop tok [] st res = (tok, st, res)"
  by (simp add: loop.simps [of tok "[]"] iteration_Nil eof_token_def)

lemma loop_step:
  "iteration ts st res = (tok', ts', st', res') \<Longrightarrow> getKind tok' \<noteq> tok_eof \<Longrightarrow>
   res' \<noteq> invalid \<Longrightarrow> loop tok ts st res = loop tok' ts' st' res'"
  by (simp add: loop.simps [of tok ts])

lemma loop_stop:
  "iteration ts st res = (tok', ts', st', res') \<Longrightarrow> getKind tok' = tok_eof \<or> res' = invalid \<Longrightarrow>
   loop tok ts st res = (tok, st', res')"
  by (auto simp add: loop.simps [of tok ts])


lemma iteration_tok:
  "fst (iteration ts st res) =
     (case ts of [] \<Rightarrow> eof_token
      | t # ts1 \<Rightarrow> if getKind t = tok_hash then fst (Lex ts1) else t)"
  by (simp add: iteration_def Let_def split_beta eof_token_def split: list.split)

lemma iteration_rest:
  "fst (snd (iteration ts st res)) =
     (case ts of [] \<Rightarrow> []
      | t # ts1 \<Rightarrow> if getKind t = tok_hash then snd (Lex ts1) else ts1)"
  by (simp add: iteration_def Let_def split_beta eof_token_def split: list.split)

lemma iteration_res: "snd (snd (snd (iteration ts st res))) \<in> {res, invalid}"
  by (simp add: iteration_def Let_def split_beta)


lemma iteration_effect_append:
  assumes "getKind (fst (iteration ts st res)) \<noteq> tok_eof"
  shows "snd (snd (iteration (ts @ rest) st res)) = snd (snd (iteration ts st res))"
proof (cases ts)
  case Nil
  with assms show ?thesis by (simp add: iteration_tok eof_token_def)
next
  case (Cons t ts1)
  show ?thesis
  proof (cases ts1)
    case Nil
    with Cons assms have "getKind t \<noteq> tok_hash"
      by (auto simp: iteration_tok eof_token_def)
    with Nil Cons show ?thesis
      by (simp add: iteration_def Let_def)
  next
    case (Cons t2 ts2)
    with \<open>ts = t # ts1\<close> show ?thesis
      by (simp add: iteration_def Let_def)
  qed
qed

lemma iteration_consumes:
  assumes "iteration ts st res = (tok', ts', st', res')" and "getKind tok' \<noteq> tok_eof"
  shows "\<exists>c. ts = c @ tok' # ts'"
proof -
  from assms(1) have t: "fst (iteration ts st res) = tok'"
    and r: "fst (snd (iteration ts st res)) = ts'" by simp_all
  show ?thesis
  proof (cases ts)
    case Nil
    with t assms(2) show ?thesis by (auto simp: iteration_tok eof_token_def)
  next
    case (Cons a ts1)
    show ?thesis
    proof (cases "getKind a = tok_hash")
      case False
      with Cons t r have "ts = [] @ tok' # ts'"
        by (simp add: iteration_tok iteration_rest)
      then show ?thesis by blast
    next
      case True
      show ?thesis
      proof (cases ts1)
        case Nil
        with Cons True t assms(2) show ?thesis
          by (auto simp: iteration_tok eof_token_def)
      next
        case (Cons b ts2)
        with \<open>ts = a # ts1\<close> True t r have "ts = [a] @ tok' # ts'"
          by (simp add: iteration_tok iteration_rest)
        then show ?thesis by blast
      qed
    qed
  qed
qed

lemma iteration_append:
  assumes "iteration ts st res = (tok', ts', st', res')" and "getKind tok' \<noteq> tok_eof"
  shows "iteration (ts @ rest) st res = (tok', ts' @ rest, st', res')"
proof -
  from iteration_consumes [OF assms] obtain c where c: "ts = c @ tok' # ts'" by blast
  from assms have ne: "getKind (fst (iteration ts st res)) \<noteq> tok_eof" by simp
  have t: "fst (iteration ts st res) = tok'"
    and r: "fst (snd (iteration ts st res)) = ts'" using assms(1) by simp_all
  have 1: "fst (iteration (ts @ rest) st res) = tok'"
    using t assms(2)
    by (cases ts; cases "tl ts") (auto simp: iteration_tok eof_token_def split: if_splits)
  have 2: "fst (snd (iteration (ts @ rest) st res)) = ts' @ rest"
    using t r assms(2)
    by (cases ts; cases "tl ts") (auto simp: iteration_tok iteration_rest eof_token_def split: if_splits)
  have 3: "snd (snd (iteration (ts @ rest) st res)) = (st', res')"
    using iteration_effect_append [OF ne, of rest] assms(1) by simp
  from 1 2 3 show ?thesis
    by (metis prod.collapse)
qed


lemma loop_prefix:
  "prefix_scan pre st = Some st' \<Longrightarrow>
   loop tok (pre @ rest) st complete = loop (last (tok # pre)) rest st' complete"
proof (induction pre st arbitrary: tok rule: prefix_scan.induct)
  case (1 ts st)
  show ?case
  proof (cases "ts = []")
    case True
    with "1.prems" show ?thesis by (simp add: prefix_scan.simps [of "[]"])
  next
    case False
    obtain tok1 ts1 st1 res1 where it: "iteration ts st complete = (tok1, ts1, st1, res1)"
      by (metis prod_cases4)
    from "1.prems" False it have ok: "getKind tok1 \<noteq> tok_eof" "res1 \<noteq> invalid"
      and rec: "prefix_scan ts1 st1 = Some st'"
      by (auto simp: prefix_scan.simps [of ts] split: if_splits)
    from iteration_res [of ts st complete] it ok have res1: "res1 = complete" by auto
    from iteration_consumes [OF it ok(1)] obtain c where c: "ts = c @ tok1 # ts1" by blast
    have "loop tok (ts @ rest) st complete = loop tok1 (ts1 @ rest) st1 complete"
      using loop_step [OF iteration_append [OF it ok(1)] ok] res1 by simp
    also have "\<dots> = loop (last (tok1 # ts1)) rest st' complete"
      using "1.IH" [OF False it [symmetric] refl refl refl _ rec] ok res1 by simp
    also have "last (tok1 # ts1) = last (tok # ts)"
      using c by simp
    finally show ?thesis .
  qed
qed

lemma loop_scanned:
  "prefix_scan ts st = Some st' \<Longrightarrow> loop tok ts st complete = (last (tok # ts), st', complete)"
  using loop_prefix [of ts st st' tok "[]"] by (simp add: loop_Nil)


subsection \<open>The accumulated buffer\<close>

lemma validate_input:
  "input (snd (validate tok0 ts code v)) =
     (if input v \<noteq> [] then input v @ [CHR 0x0A] @ code else code)"
  by (simp add: validate_def Let_def split_beta)

lemma join_lines_Cons:
  "join_lines (s # ss) = s @ concat (map (\<lambda>c. CHR 0x0A # c) ss)"
  by (induction ss arbitrary: s) simp_all

lemma validate_all_input_nonempty:
  "input v \<noteq> [] \<Longrightarrow>
   input (validate_all cs v) = input v @ concat (map (\<lambda>c. CHR 0x0A # fragment c) cs)"
proof (induction cs arbitrary: v)
  case Nil
  then show ?case by simp
next
  case (Cons c cs)
  obtain tok0 ts code where c: "c = (tok0, ts, code)" by (cases c)
  let ?v = "snd (validate tok0 ts code v)"
  from Cons.prems have i: "input ?v = input v @ [CHR 0x0A] @ code"
    by (simp add: validate_input)
  then have "input ?v \<noteq> []" by simp
  from Cons.IH [OF this] i c show ?case by (simp add: fragment_def)
qed

lemma validate_all_input_empty:
  "input v = [] \<Longrightarrow>
   input (validate_all cs v) = join_lines (dropWhile (\<lambda>s. s = []) (map fragment cs))"
proof (induction cs arbitrary: v)
  case Nil
  then show ?case by simp
next
  case (Cons c cs)
  obtain tok0 ts code where c: "c = (tok0, ts, code)" by (cases c)
  let ?v = "snd (validate tok0 ts code v)"
  from Cons.prems have i: "input ?v = code"
    by (simp add: validate_input)
  show ?case
  proof (cases "code = []")
    case True
    with i Cons.IH [of ?v] c show ?thesis by (simp add: fragment_def)
  next
    case False
    with i have "input ?v \<noteq> []" by simp
    from validate_all_input_nonempty [OF this, of cs] i c False show ?thesis
      by (simp add: fragment_def join_lines_Cons comp_def)
  qed
qed

subsection \<open>Balance of the stack\<close>

lemma iteration_plain:
  "plain (getKind t) \<Longrightarrow> iteration (t # ts) st res = (t, ts, st, res)"
  by (simp add: iteration_def plain_def is_opener_def is_closer_def)

lemma iteration_opener:
  "is_opener (getKind t) \<Longrightarrow>
   iteration (t # ts) st res = (t, ts, st @ [kind_code (getKind t)], res)"
  by (simp add: iteration_def is_opener_def)

lemma iteration_closer:
  "is_closer (getKind t) \<Longrightarrow>
   iteration (t # ts) st res =
     (if st \<noteq> [] \<and> last st = kind_code (matching_opener (getKind t)) then
        (if pops_template (getKind t) (butlast st) then (t, ts, butlast (butlast st), res)
         else (t, ts, butlast st, res))
      else (t, ts, st, invalid))"
  by (auto simp: iteration_def is_closer_def)

lemma iteration_hash:
  "getKind t = tok_hash \<Longrightarrow>
   iteration (t # d # ts) st res =
     (if startswith (getText d) ''if'' then (d, ts, st @ [kind_code tok_hash], res)
      else if is_endif (getText d) then
        (if st \<noteq> [] \<and> last st = kind_code tok_hash then (d, ts, butlast st, res)
         else (d, ts, st, invalid))
      else (d, ts, st, res))"
  by (simp add: iteration_def)

lemma iteration_hash_end:
  "getKind t = tok_hash \<Longrightarrow> iteration [t] st res = (eof_token, [], st, res)"
  by (simp add: iteration_def eof_token_def startswith_def is_endif_def)

lemma endif_not_if: "is_endif nm \<Longrightarrow> \<not> startswith nm ''if''"
  by (cases nm) (auto simp: is_endif_def startswith_def)

lemma not_template: "kind_code tok_less \<notin> set st \<Longrightarrow> \<not> pops_template k st"
  by (cases st rule: rev_cases) (auto simp: pops_template_def)

lemma prefix_scan_Nil: "prefix_scan [] st = Some st"
  by (simp add: prefix_scan.simps)

lemma prefix_scan_step:
  "iteration ts st complete = (tok', ts', st', res') \<Longrightarrow> ts \<noteq> [] \<Longrightarrow>
   prefix_scan ts st = (if getKind tok' = tok_eof \<or> res' = invalid then None else prefix_scan ts' st')"
  by (simp add: prefix_scan.simps [of ts])

lemma prefix_scan_Cons:
  "prefix_scan (t # ts) st =
     (case iteration (t # ts) st complete of
        (tok', ts', st', res') \<Rightarrow>
          if getKind tok' = tok_eof \<or> res' = invalid then None else prefix_scan ts' st')"
  by (simp add: prefix_scan.simps [of "t # ts"])



lemma validate_scanned:
  assumes "prefix_scan ts (parenStack v) = Some st"
  shows "fst (validate tok0 ts code v) =
           (if getKind (last (tok0 # ts)) = tok_comma \<or> st \<noteq> [] then incomplete else complete)"
    and "parenStack (snd (validate tok0 ts code v)) = st"
  using loop_scanned [OF assms, of tok0] by (simp_all add: validate_def)

lemma prefix_scan_plain:
  "\<forall>t\<in>set ts. plain (getKind t) \<Longrightarrow> prefix_scan ts st = Some st"
  by (induction ts) (simp_all add: prefix_scan_Nil prefix_scan_Cons iteration_plain plain_def)

lemma iteration_default:
  "\<not> is_opener (getKind t) \<Longrightarrow> \<not> is_closer (getKind t) \<Longrightarrow> getKind t \<noteq> tok_hash \<Longrightarrow>
   iteration (t # ts) st res = (t, ts, st, res)"
  by (simp add: iteration_def is_opener_def is_closer_def)

lemma less_not_opener_code: "kind_code tok_less \<notin> opener_codes"
  by (simp add: opener_codes_def)

lemma stack_ok_no_template:
  "set st \<subseteq> opener_codes \<Longrightarrow> \<not> pops_template k (butlast st)"
proof (rule not_template)
  assume "set st \<subseteq> opener_codes"
  then show "kind_code tok_less \<notin> set (butlast st)"
    using less_not_opener_code by (auto dest: in_set_butlastD)
qed

lemma opener_code: "is_opener k \<Longrightarrow> kind_code k \<in> opener_codes"
  by (auto simp: is_opener_def opener_codes_def)

lemma iteration_stack:
  assumes "set st \<subseteq> opener_codes"
  shows "fst (snd (snd (iteration ts st res))) =
           (if pushes ts then st @ [if getKind (hd ts) = tok_hash then kind_code tok_hash else kind_code (getKind (hd ts))]
            else if pops ts st then butlast st else st)"
proof (cases ts)
  case Nil
  then show ?thesis by (simp add: iteration_Nil pushes_def pops_def)
next
  case (Cons t ts1)
  consider (op) "is_opener (getKind t)" | (cl) "is_closer (getKind t)"
    | (hash) "getKind t = tok_hash"
    | (other) "\<not> is_opener (getKind t)" "\<not> is_closer (getKind t)" "getKind t \<noteq> tok_hash"
    by blast
  then show ?thesis
  proof cases
    case op
    then have "getKind t \<noteq> tok_hash" by (auto simp: is_opener_def)
    with op Cons show ?thesis by (simp add: iteration_opener pushes_def)
  next
    case cl
    then have "\<not> is_opener (getKind t)" "getKind t \<noteq> tok_hash"
      by (auto simp: is_opener_def is_closer_def)
    with cl Cons stack_ok_no_template [OF assms] show ?thesis
      by (simp add: iteration_closer pushes_def pops_def)
  next
    case hash
    then have no: "\<not> is_opener (getKind t)" "\<not> is_closer (getKind t)"
      by (auto simp: is_opener_def is_closer_def)
    show ?thesis
    proof (cases ts1)
      case Nil
      with hash no Cons show ?thesis
        by (simp add: iteration_hash_end pushes_def pops_def eof_token_def startswith_def
            is_endif_def)
    next
      case (Cons d ts2)
      with hash no \<open>ts = t # ts1\<close> show ?thesis
        by (auto simp: iteration_hash pushes_def pops_def endif_not_if)
    qed
  next
    case other
    with Cons show ?thesis by (simp add: iteration_default pushes_def pops_def)
  qed
qed

lemma push_pop_exclusive: "pushes ts \<Longrightarrow> \<not> pops ts st"
  by (cases ts) (auto simp: pushes_def pops_def is_opener_def is_closer_def endif_not_if)

lemma iteration_stack_ok:
  assumes "set st \<subseteq> opener_codes"
  shows "set (fst (snd (snd (iteration ts st res)))) \<subseteq> opener_codes"
proof -
  have "pushes ts \<Longrightarrow> getKind (hd ts) \<noteq> tok_hash \<Longrightarrow> is_opener (getKind (hd ts))"
    by (cases ts) (auto simp: pushes_def)
  then show ?thesis
    using assms opener_code
    by (auto simp: iteration_stack [OF assms] opener_codes_def dest: in_set_butlastD)
qed

lemma iteration_stack_subset:
  "set (fst (snd (snd (iteration ts st res)))) \<subseteq> set st \<union> opener_codes"
proof (cases ts)
  case Nil
  then show ?thesis by (simp add: iteration_Nil)
next
  case (Cons t ts1)
  consider (op) "is_opener (getKind t)" | (cl) "is_closer (getKind t)"
    | (hash) "getKind t = tok_hash"
    | (other) "\<not> is_opener (getKind t)" "\<not> is_closer (getKind t)" "getKind t \<noteq> tok_hash"
    by blast
  then show ?thesis
  proof cases
    case op
    with Cons opener_code [OF op] show ?thesis
      by (auto simp: iteration_opener)
  next
    case cl
    with Cons show ?thesis
      by (auto simp: iteration_closer dest: in_set_butlastD)
  next
    case hash
    show ?thesis
    proof (cases ts1)
      case Nil
      with hash Cons show ?thesis by (simp add: iteration_hash_end)
    next
      case (Cons d ts2)
      with hash \<open>ts = t # ts1\<close> show ?thesis
        by (auto simp: iteration_hash opener_codes_def dest: in_set_butlastD)
    qed
  next
    case other
    with Cons show ?thesis by (simp add: iteration_default)
  qed
qed

lemma loop_stack_ok:
  "set st \<subseteq> opener_codes \<Longrightarrow> set (fst (snd (loop tok ts st res))) \<subseteq> opener_codes"
proof (induction tok ts st res rule: loop.induct)
  case (1 token ts st res)
  obtain tok1 ts1 st1 res1 where it: "iteration ts st res = (tok1, ts1, st1, res1)"
    by (metis prod_cases4)
  from iteration_stack_ok [OF "1.prems", of ts res] it have ok: "set st1 \<subseteq> opener_codes"
    by simp
  show ?case
  proof (cases "getKind tok1 \<noteq> tok_eof \<and> res1 \<noteq> invalid")
    case True
    with "1.IH" [OF refl it [symmetric] refl refl refl True ok] it show ?thesis
      by (simp add: loop.simps [of token ts])
  next
    case False
    with it ok show ?thesis
      by (auto simp: loop.simps [of token ts])
  qed
qed

lemma reachable_stack_ok: "reachable v \<Longrightarrow> set (parenStack v) \<subseteq> opener_codes"
proof (induction rule: reachable.induct)
  case reach_fresh
  show ?case by (simp add: fresh_def)
next
  case (reach_validate v tok0 ts code)
  from loop_stack_ok [OF reach_validate.IH, of tok0 ts complete] show ?case
    by (simp add: validate_def Let_def split_beta)
next
  case (reach_reset v c out v')
  then show ?case
    by (auto simp: reset_def split: option.splits if_splits)
qed

lemma opened_Cons:
  "getKind t \<noteq> tok_hash \<Longrightarrow>
   opened (t # ts) = (if is_opener (getKind t) then 1 else 0) + opened ts"
  by (cases ts) simp_all

lemma closed_Cons:
  "getKind t \<noteq> tok_hash \<Longrightarrow>
   closed (t # ts) = (if is_closer (getKind t) then 1 else 0) + closed ts"
  by (cases ts) simp_all

lemma iteration_depth:
  assumes ok: "set st \<subseteq> opener_codes"
    and it: "iteration ts st complete = (tok1, ts1, st1, res1)"
    and ne: "getKind tok1 \<noteq> tok_eof" and ni: "res1 \<noteq> invalid"
  shows "length st1 + closed ts + opened ts1 = length st + opened ts + closed ts1"
proof (cases ts)
  case Nil
  with it ne show ?thesis by (auto simp: iteration_Nil eof_token_def)
next
  case (Cons t rest)
  consider (op) "is_opener (getKind t)" | (cl) "is_closer (getKind t)"
    | (hash) "getKind t = tok_hash"
    | (other) "\<not> is_opener (getKind t)" "\<not> is_closer (getKind t)" "getKind t \<noteq> tok_hash"
    by blast
  then show ?thesis
  proof cases
    case op
    then have "getKind t \<noteq> tok_hash" "\<not> is_closer (getKind t)"
      by (auto simp: is_opener_def is_closer_def)
    with op Cons it show ?thesis
      by (auto simp: iteration_opener opened_Cons closed_Cons)
  next
    case cl
    then have k: "getKind t \<noteq> tok_hash" "\<not> is_opener (getKind t)"
      by (auto simp: is_opener_def is_closer_def)
    from cl Cons it ni stack_ok_no_template [OF ok]
    have "st \<noteq> []" "st1 = butlast st" "ts1 = rest"
      by (auto simp: iteration_closer split: if_splits)
    with k cl Cons show ?thesis
      by (cases st rule: rev_cases) (auto simp: opened_Cons closed_Cons)
  next
    case hash
    show ?thesis
    proof (cases rest)
      case Nil
      with hash Cons it ne show ?thesis
        by (auto simp: iteration_hash_end eof_token_def)
    next
      case (Cons d ts2)
      show ?thesis
      proof (cases "startswith (getText d) ''if''")
        case True
        then have "\<not> is_endif (getText d)" using endif_not_if by blast
        with True hash Cons \<open>ts = t # rest\<close> it show ?thesis
          by (auto simp: iteration_hash)
      next
        case False
        show ?thesis
        proof (cases "is_endif (getText d)")
          case True
          with False hash Cons \<open>ts = t # rest\<close> it ni
          have "st \<noteq> []" "st1 = butlast st" "ts1 = ts2"
            by (auto simp: iteration_hash split: if_splits)
          with True False hash Cons \<open>ts = t # rest\<close> show ?thesis
            by (cases st rule: rev_cases) auto
        next
          case nend: False
          with False hash Cons \<open>ts = t # rest\<close> it show ?thesis
            by (auto simp: iteration_hash)
        qed
      qed
    qed
  next
    case other
    with Cons it show ?thesis
      by (auto simp: iteration_default opened_Cons closed_Cons)
  qed
qed

lemma scan_depth:
  "prefix_scan ts st = Some st' \<Longrightarrow> set st \<subseteq> opener_codes \<Longrightarrow>
   length st' + closed ts = length st + opened ts"
proof (induction ts st rule: prefix_scan.induct)
  case (1 ts st)
  show ?case
  proof (cases "ts = []")
    case True
    with "1.prems" show ?thesis by (simp add: prefix_scan_Nil)
  next
    case False
    obtain tok1 ts1 st1 res1 where it: "iteration ts st complete = (tok1, ts1, st1, res1)"
      by (metis prod_cases4)
    from "1.prems" False it have ne: "getKind tok1 \<noteq> tok_eof" and ni: "res1 \<noteq> invalid"
      and rec: "prefix_scan ts1 st1 = Some st'"
      by (auto simp: prefix_scan_step split: if_splits)
    from iteration_stack_ok [OF "1.prems"(2), of ts complete] it
    have ok1: "set st1 \<subseteq> opener_codes" by simp
    have "length st' + closed ts1 = length st1 + opened ts1"
      using "1.IH" [OF False it [symmetric] refl refl refl _ rec ok1] ne ni by simp
    with iteration_depth [OF "1.prems"(2) it ne ni] show ?thesis
      by linarith
  qed
qed

subsection \<open>The fragments named by the specification\<close>

lemmas eval_simps =
  validate_def loop.simps iteration_def pops_template_def startswith_def is_endif_def
  eof_token_def fresh_def Let_def

lemma validate_Foo:
  "validate tok0 Foo_toks ''Foo<Bar{1,2}>'' fresh =
     (complete, \<lparr>input = ''Foo<Bar{1,2}>'', parenStack = [], lastResult = complete\<rparr>)"
  by (simp add: eval_simps Foo_toks_def)

lemma validate_Foo_less:
  "validate tok0 (take 2 Foo_toks) ''Foo<'' fresh =
     (complete, \<lparr>input = ''Foo<'', parenStack = [], lastResult = complete\<rparr>)"
  by (simp add: eval_simps Foo_toks_def)

lemma validate_Foo_brace:
  "validate tok0 (take 4 Foo_toks) ''Foo<Bar{'' fresh =
     (incomplete,
      \<lparr>input = ''Foo<Bar{'', parenStack = [kind_code tok_l_brace], lastResult = incomplete\<rparr>)"
  by (simp add: eval_simps Foo_toks_def)

lemma validate_Foo_closed:
  "validate tok0 (take 8 Foo_toks) ''Foo<Bar{1,2}'' fresh =
     (complete, \<lparr>input = ''Foo<Bar{1,2}'', parenStack = [], lastResult = complete\<rparr>)"
  by (simp add: eval_simps Foo_toks_def)

lemma validate_foo_call:
  "validate tok0 foo_call_toks ''foo(1, 2,'' fresh =
     (incomplete,
      \<lparr>input = ''foo(1, 2,'', parenStack = [kind_code tok_l_paren], lastResult = incomplete\<rparr>)"
  by (simp add: eval_simps foo_call_toks_def)

lemma validate_three:
  "validate tok1 three_toks ''3)'' (snd (validate tok0 foo_call_toks ''foo(1, 2,'' fresh)) =
     (complete,
      \<lparr>input = ''foo(1, 2,'' @ [CHR 0x0A] @ ''3)'', parenStack = [], lastResult = complete\<rparr>)"
  by (simp add: validate_foo_call) (simp add: eval_simps three_toks_def)

lemma validate_if_X:
  "validate tok0 if_X_toks ''#if X'' fresh =
     (incomplete,
      \<lparr>input = ''#if X'', parenStack = [kind_code tok_hash], lastResult = incomplete\<rparr>)"
  by (simp add: eval_simps if_X_toks_def)

lemma validate_endif_after_if:
  "validate tok1 endif_toks ''#endif'' (snd (validate tok0 if_X_toks ''#if X'' fresh)) =
     (complete,
      \<lparr>input = ''#if X'' @ [CHR 0x0A] @ ''#endif'', parenStack = [], lastResult = complete\<rparr>)"
  by (simp add: validate_if_X) (simp add: eval_simps endif_toks_def)

lemma validate_endif_fresh:
  "fst (validate tok0 endif_toks ''#endif'' fresh) =
     (if getKind tok0 = tok_comma then incomplete else invalid)"
  by (simp add: eval_simps endif_toks_def)

lemma prefix_scan_stack_ok:
  "prefix_scan ts st = Some st' \<Longrightarrow> set st \<subseteq> opener_codes \<Longrightarrow> set st' \<subseteq> opener_codes"
proof (induction ts st rule: prefix_scan.induct)
  case (1 ts st)
  show ?case
  proof (cases "ts = []")
    case True
    with "1.prems" show ?thesis by (simp add: prefix_scan_Nil)
  next
    case False
    obtain tok1 ts1 st1 res1 where it: "iteration ts st complete = (tok1, ts1, st1, res1)"
      by (metis prod_cases4)
    from "1.prems" False it have ne: "getKind tok1 \<noteq> tok_eof" and ni: "res1 \<noteq> invalid"
      and rec: "prefix_scan ts1 st1 = Some st'"
      by (auto simp: prefix_scan_step split: if_splits)
    from iteration_stack_ok [OF "1.prems"(2), of ts complete] it
    have ok1: "set st1 \<subseteq> opener_codes" by simp
    show ?thesis
      using "1.IH" [OF False it [symmetric] refl refl refl _ rec ok1] ne ni by simp
  qed
qed

section \<open>The claims\<close>

text \<open>
  C1. A closing bracket that meets an empty stack, or a top that is not its opener,
  is to give the verdict \<open>invalid\<close>, which no trailing-token condition displaces. The
  code departs from this. In \<open>a)\<close> the closing parenthesis meets an empty stack and the
  verdict is \<open>invalid\<close>; in \<open>a,)\<close> it meets the same empty stack, line 60 sets \<open>invalid\<close>
  and the loop ends, but \<open>lastSeenToken\<close> is then the comma before the parenthesis and
  line 92 replaces the verdict by \<open>incomplete\<close>.
\<close>

theorem comma_before_unmatched_closer_is_incomplete:
  "fst (validate (Token tok_unknown [])
          [Token tok_identifier ''a'', Token tok_r_paren '')''] ''a)'' fresh) = invalid
   \<and> fst (validate (Token tok_unknown [])
            [Token tok_identifier ''a'', Token tok_comma '','', Token tok_r_paren '')'']
            ''a,)'' fresh) = incomplete"
  by (simp add: eval_simps)

text \<open>
  C2 (amended). For every fragment whose tokens contain no bracket and no hash, and
  whose last token is not a comma, \<open>validate\<close> called with an empty stack returns
  \<open>complete\<close> and leaves the stack empty. For a fragment without tokens the token seen
  last is the unassigned variable \<open>tok0\<close>.
\<close>

theorem plain_tokens_are_complete:
  assumes "\<forall>t\<in>set ts. plain (getKind t)"
    and "parenStack v = []"
    and "getKind (last (tok0 # ts)) \<noteq> tok_comma"
  shows "fst (validate tok0 ts code v) = complete
       \<and> parenStack (snd (validate tok0 ts code v)) = []"
  using validate_scanned [of ts v "[]" tok0 code] prefix_scan_plain [OF assms(1), of "[]"]
    assms(2,3)
  by simp

theorem plain_tokens_are_complete_witness:
  "plain tok_identifier \<and> plain tok_semi \<and> parenStack fresh = []
   \<and> fst (validate (Token tok_unknown [])
            [Token tok_identifier ''x'', Token tok_semi '';''] ''x;'' fresh) = complete"
proof -
  have 1: "\<forall>t\<in>set [Token tok_identifier ''x'', Token tok_semi '';'']. plain (getKind t)"
    by (simp add: plain_def is_opener_def is_closer_def)
  have 2: "parenStack fresh = []"
    by (simp add: fresh_def)
  have 3: "getKind (last (Token tok_unknown []
             # [Token tok_identifier ''x'', Token tok_semi '';''])) \<noteq> tok_comma"
    by simp
  from plain_tokens_are_complete [OF 1 2 3, of "''x;''"] 1 2 show ?thesis by simp
qed

text \<open>
  C2 as stated fails: \<open>#if X\<close> has no bracket and does not end with a comma, but its
  verdict on a fresh validator is \<open>incomplete\<close>.
\<close>

theorem if_directive_without_brackets_is_incomplete:
  "filter (\<lambda>t. is_opener (getKind t) \<or> is_closer (getKind t)) if_X_toks = []
   \<and> getKind (last if_X_toks) \<noteq> tok_comma
   \<and> parenStack fresh = []
   \<and> fst (validate (Token tok_unknown []) if_X_toks ''#if X'' fresh) = incomplete"
  by (simp add: validate_if_X) (simp add: if_X_toks_def is_opener_def is_closer_def fresh_def)

text \<open>
  C3 (amended). Validating \<open>Foo<Bar{1,2}>\<close> on a fresh validator returns \<open>complete\<close> and
  leaves the stack empty. The tokens \<open><\<close> and \<open>>\<close> have no effect on the stack, whatever
  the stack is: after \<open>Foo<\<close> the stack is empty, after \<open>Foo<Bar{\<close> it holds the brace
  alone, and the closing brace pops that brace, which empties the stack.
\<close>

theorem Foo_Bar_is_complete_by_the_brace_alone:
  "validate tok0 Foo_toks ''Foo<Bar{1,2}>'' fresh =
     (complete, \<lparr>input = ''Foo<Bar{1,2}>'', parenStack = [], lastResult = complete\<rparr>)
   \<and> iteration (Token tok_less s # ts) st res = (Token tok_less s, ts, st, res)
   \<and> iteration (Token tok_greater s # ts) st res = (Token tok_greater s, ts, st, res)
   \<and> parenStack (snd (validate tok0 (take 2 Foo_toks) ''Foo<'' fresh)) = []
   \<and> parenStack (snd (validate tok0 (take 4 Foo_toks) ''Foo<Bar{'' fresh))
       = [kind_code tok_l_brace]
   \<and> parenStack (snd (validate tok0 (take 8 Foo_toks) ''Foo<Bar{1,2}'' fresh)) = []"
  by (simp add: validate_Foo validate_Foo_less validate_Foo_brace validate_Foo_closed
      iteration_default is_opener_def is_closer_def)

text \<open>
  C3 as stated fails: \<open><\<close> is not pushed. After \<open>Foo<\<close> the stack does not hold the
  template marker, and after \<open>Foo<Bar{\<close> it does not hold the marker below the brace.
\<close>

theorem less_is_not_pushed:
  "parenStack (snd (validate (Token tok_unknown []) (take 2 Foo_toks) ''Foo<'' fresh))
     \<noteq> [kind_code tok_less]
   \<and> parenStack (snd (validate (Token tok_unknown []) (take 4 Foo_toks) ''Foo<Bar{'' fresh))
     \<noteq> [kind_code tok_less, kind_code tok_l_brace]"
  by (simp add: validate_Foo_less validate_Foo_brace)

text \<open>
  C4 (amended). For every fragment whose last token is a comma and whose scan runs to
  the end of the tokens without the verdict \<open>invalid\<close>, \<open>validate\<close> returns \<open>incomplete\<close>,
  whatever the stack at the end, also the empty one. Validating \<open>foo(1, 2,\<close> yields
  \<open>incomplete\<close>, and validating \<open>3)\<close> next on the same validator yields \<open>complete\<close>.
\<close>

theorem trailing_comma_is_incomplete:
  "(prefix_scan ts (parenStack v) = Some st \<and> ts \<noteq> [] \<and> getKind (last ts) = tok_comma
      \<longrightarrow> fst (validate tok0 ts code v) = incomplete)
   \<and> fst (validate tok0 foo_call_toks ''foo(1, 2,'' fresh) = incomplete
   \<and> fst (validate tok1 three_toks ''3)''
            (snd (validate tok0 foo_call_toks ''foo(1, 2,'' fresh))) = complete"
proof -
  have 1: "prefix_scan ts (parenStack v) = Some st \<Longrightarrow> ts \<noteq> [] \<Longrightarrow>
           getKind (last ts) = tok_comma \<Longrightarrow> fst (validate tok0 ts code v) = incomplete"
    using validate_scanned(1) [of ts v st tok0 code] by simp
  have 2: "fst (validate tok0 foo_call_toks ''foo(1, 2,'' fresh) = incomplete"
    by (simp add: validate_foo_call)
  have 3: "fst (validate tok1 three_toks ''3)''
                  (snd (validate tok0 foo_call_toks ''foo(1, 2,'' fresh))) = complete"
    by (simp only: validate_three fst_conv)
  from 1 2 3 show ?thesis by blast
qed

theorem trailing_comma_is_incomplete_witness:
  "prefix_scan [Token tok_identifier ''a'', Token tok_comma '',''] (parenStack fresh) = Some []
   \<and> getKind (last [Token tok_identifier ''a'', Token tok_comma '','']) = tok_comma
   \<and> fst (validate (Token tok_unknown [])
            [Token tok_identifier ''a'', Token tok_comma '',''] ''a,'' fresh) = incomplete"
proof -
  have 1: "prefix_scan [Token tok_identifier ''a'', Token tok_comma '','']
             (parenStack fresh) = Some []"
    by (simp add: prefix_scan_Cons prefix_scan_Nil iteration_default is_opener_def
        is_closer_def fresh_def)
  from trailing_comma_is_incomplete
    [of "[Token tok_identifier ''a'', Token tok_comma '','']" fresh "[]"
        "Token tok_unknown []" "''a,''"] 1
  show ?thesis by simp
qed

text \<open>
  C4 as stated fails: \<open>a),\<close> ends with a comma, but the scan stops at the unmatched
  parenthesis and the verdict is \<open>invalid\<close>.
\<close>

theorem comma_after_unmatched_closer_is_invalid:
  "getKind (last [Token tok_identifier ''a'', Token tok_r_paren '')'', Token tok_comma '','']) = tok_comma
   \<and> fst (validate (Token tok_unknown [])
            [Token tok_identifier ''a'', Token tok_r_paren '')'', Token tok_comma '','']
            ''a),'' fresh) = invalid"
  by (simp add: eval_simps)

text \<open>
  C5. An \<open>#endif\<close> that meets an empty stack, or a top that is not the marker of a
  conditional, is to give the verdict \<open>invalid\<close>. The pushes and pops are as claimed:
  \<open>#if X\<close> alone yields \<open>incomplete\<close> and \<open>#endif\<close> after it on the same validator yields
  \<open>complete\<close>. The verdict \<open>invalid\<close> is not always returned. In \<open>a\<close>, newline, \<open>#endif\<close> on a
  fresh validator the verdict is \<open>invalid\<close>; in \<open>a,\<close>, newline, \<open>#endif\<close> the loop body sets
  \<open>invalid\<close> (line 80) as well, but \<open>lastSeenToken\<close> is the comma and line 92 replaces the
  verdict by \<open>incomplete\<close>. In \<open>#endif\<close> alone on a fresh validator the loop ends in its
  first pass and line 89 reads the variable declared without a value in line 43: the
  verdict is \<open>invalid\<close> unless that variable holds the kind of a comma.
\<close>

theorem comma_before_unmatched_endif_is_incomplete:
  "fst (validate tok0 if_X_toks ''#if X'' fresh) = incomplete
   \<and> fst (validate tok1 endif_toks ''#endif''
            (snd (validate tok0 if_X_toks ''#if X'' fresh))) = complete
   \<and> fst (validate (Token tok_unknown [])
            [Token tok_identifier ''a'', Token tok_hash ''#'', Token tok_identifier ''endif'']
            (''a'' @ [CHR 0x0A] @ ''#endif'') fresh) = invalid
   \<and> fst (validate (Token tok_unknown [])
            [Token tok_identifier ''a'', Token tok_comma '','', Token tok_hash ''#'',
             Token tok_identifier ''endif'']
            (''a,'' @ [CHR 0x0A] @ ''#endif'') fresh) = incomplete
   \<and> fst (validate tok0 endif_toks ''#endif'' fresh) =
        (if getKind tok0 = tok_comma then incomplete else invalid)"
proof -
  have 1: "fst (validate tok0 if_X_toks ''#if X'' fresh) = incomplete"
    by (simp add: validate_if_X)
  have 2: "fst (validate tok1 endif_toks ''#endif''
                  (snd (validate tok0 if_X_toks ''#if X'' fresh))) = complete"
    by (simp only: validate_endif_after_if fst_conv)
  have 3: "fst (validate (Token tok_unknown [])
            [Token tok_identifier ''a'', Token tok_hash ''#'', Token tok_identifier ''endif'']
            (''a'' @ [CHR 0x0A] @ ''#endif'') fresh) = invalid"
    by (simp add: eval_simps)
  have 4: "fst (validate (Token tok_unknown [])
            [Token tok_identifier ''a'', Token tok_comma '','', Token tok_hash ''#'',
             Token tok_identifier ''endif'']
            (''a,'' @ [CHR 0x0A] @ ''#endif'') fresh) = incomplete"
    by (simp add: eval_simps)
  from 1 2 3 4 validate_endif_fresh [of tok0] show ?thesis
    by blast
qed



text \<open>
  C7 (amended). A hash takes the token after it as the name of its directive, so that
  token is never read as a bracket; with that understood the claim holds. Let the scan
  of a reachable validator have passed the tokens \<open>pre\<close> without \<open>invalid\<close>. Then the loop
  of \<open>validate\<close> goes on with the remaining tokens from a stack \<open>st\<close> that holds opener
  kinds only; \<open>st\<close> is what \<open>validate\<close> leaves when the fragment ends there, and its
  depth is the depth at the start of the call plus the number of openers minus the
  number of closers in \<open>pre\<close>, that is the number of openers not yet matched. The next
  pass pushes one entry exactly when it sees an opening bracket or an \<open>#if\<close>-class
  directive, pops one entry exactly when it sees a closing bracket or an \<open>#endif\<close>
  while the top is the corresponding opener, and leaves the stack as it is otherwise.
\<close>

theorem stack_depth_counts_unmatched_openers:
  assumes "reachable v" and "prefix_scan pre (parenStack v) = Some st"
  shows "loop tok0 (pre @ rest) (parenStack v) complete
           = loop (last (tok0 # pre)) rest st complete
       \<and> parenStack (snd (validate tok0 pre code v)) = st
       \<and> length (parenStack (snd (validate tok0 pre code v))) + closed pre
           = length (parenStack v) + opened pre
       \<and> set st \<subseteq> opener_codes
       \<and> (pushes rest \<longrightarrow>
            butlast (fst (snd (snd (iteration rest st res)))) = st
            \<and> length (fst (snd (snd (iteration rest st res)))) = length st + 1)
       \<and> (pops rest st \<longrightarrow>
            fst (snd (snd (iteration rest st res))) = butlast st
            \<and> length (fst (snd (snd (iteration rest st res)))) + 1 = length st)
       \<and> (\<not> pushes rest \<and> \<not> pops rest st \<longrightarrow>
            fst (snd (snd (iteration rest st res))) = st)"
proof -
  let ?st' = "fst (snd (snd (iteration rest st res)))"
  from assms(1) have ok0: "set (parenStack v) \<subseteq> opener_codes"
    by (rule reachable_stack_ok)
  have ok: "set st \<subseteq> opener_codes"
    by (rule prefix_scan_stack_ok [OF assms(2) ok0])
  have a: "loop tok0 (pre @ rest) (parenStack v) complete
             = loop (last (tok0 # pre)) rest st complete"
    by (rule loop_prefix [OF assms(2)])
  have b: "parenStack (snd (validate tok0 pre code v)) = st"
    by (rule validate_scanned(2) [OF assms(2)])
  have "length st + closed pre = length (parenStack v) + opened pre"
    by (rule scan_depth [OF assms(2) ok0])
  with b have c: "length (parenStack (snd (validate tok0 pre code v))) + closed pre
                    = length (parenStack v) + opened pre"
    by simp
  have ne: "pops rest st \<Longrightarrow> st \<noteq> []"
    by (cases rest) (auto simp: pops_def)
  have 1: "pushes rest \<Longrightarrow> butlast ?st' = st \<and> length ?st' = length st + 1"
    by (simp add: iteration_stack [OF ok])
  have 2: "pops rest st \<Longrightarrow> ?st' = butlast st \<and> length ?st' + 1 = length st"
    using ne push_pop_exclusive [of rest st] by (auto simp: iteration_stack [OF ok])
  have 3: "\<not> pushes rest \<Longrightarrow> \<not> pops rest st \<Longrightarrow> ?st' = st"
    by (simp add: iteration_stack [OF ok])
  from a b c ok 1 2 3 show ?thesis by blast
qed

theorem stack_depth_counts_unmatched_openers_witness:
  "reachable fresh
   \<and> prefix_scan foo_call_toks (parenStack fresh) = Some [kind_code tok_l_paren]
   \<and> parenStack (snd (validate (Token tok_unknown []) foo_call_toks ''foo(1, 2,'' fresh))
       = [kind_code tok_l_paren]
   \<and> opened foo_call_toks = 1 \<and> closed foo_call_toks = 0
   \<and> pops three_toks [kind_code tok_l_paren] = False
   \<and> fst (snd (snd (iteration three_toks [kind_code tok_l_paren] complete)))
       = [kind_code tok_l_paren]"
proof -
  have 1: "reachable fresh"
    by (rule reach_fresh)
  have 2: "prefix_scan foo_call_toks (parenStack fresh) = Some [kind_code tok_l_paren]"
    by (simp add: foo_call_toks_def fresh_def prefix_scan_Cons prefix_scan_Nil iteration_def)
  have 3: "opened foo_call_toks = 1 \<and> closed foo_call_toks = 0"
    by (simp add: foo_call_toks_def is_opener_def is_closer_def)
  have 4: "\<not> pushes three_toks \<and> \<not> pops three_toks [kind_code tok_l_paren]"
    by (simp add: three_toks_def pushes_def pops_def is_opener_def is_closer_def)
  from stack_depth_counts_unmatched_openers
    [OF 1 2, of "Token tok_unknown []" three_toks "''foo(1, 2,''" complete] 1 2 3 4
  show ?thesis by simp
qed

text \<open>
  C7 as stated fails: in \<open>#(\<close> the scan sees an opening parenthesis that no closer
  matches, but pushes nothing; in \<open>(#)\<close> it sees a closing parenthesis while the top of
  the stack is the opening parenthesis, but pops nothing.
\<close>

theorem bracket_after_hash_is_not_counted:
  "length (filter (\<lambda>t. is_opener (getKind t)) [Token tok_hash ''#'', Token tok_l_paren ''('']) = 1
   \<and> validate (Token tok_unknown []) [Token tok_hash ''#'', Token tok_l_paren ''(''] ''#('' fresh
       = (complete, \<lparr>input = ''#('', parenStack = [], lastResult = complete\<rparr>)
   \<and> validate (Token tok_unknown [])
        [Token tok_l_paren ''('', Token tok_hash ''#'', Token tok_r_paren '')''] ''(#)'' fresh
       = (incomplete,
          \<lparr>input = ''(#)'', parenStack = [kind_code tok_l_paren], lastResult = incomplete\<rparr>)"
  by (simp add: eval_simps is_opener_def)

text \<open>
  C8 (amended). Every call of \<open>validate\<close> appends its fragment to the buffer, preceded
  by a newline exactly when the buffer is not empty, whatever the verdict. Therefore
  the buffer that \<open>reset\<close> moves into its (empty) output argument after a turn is the
  newline-joined concatenation of the fragments of the turn from the first non-empty
  fragment on: empty fragments at the start of a turn leave no newline behind.
\<close>

theorem reset_returns_joined_fragments:
  "input (snd (validate tok0 ts code v)) =
     (if input v \<noteq> [] then input v @ [CHR 0x0A] @ code else code)
   \<and> reset (Some []) (validate_all cs fresh) =
       Inr (Some (join_lines (dropWhile (\<lambda>s. s = []) (map fragment cs))), fresh)"
  by (simp add: validate_input reset_def validate_all_input_empty fresh_def)

text \<open>
  C8 as stated fails: a turn whose first fragment is empty and whose second fragment
  is \<open>x;\<close> hands back \<open>x;\<close>, not the newline-joined concatenation of both fragments.
\<close>

theorem empty_first_fragment_leaves_no_newline:
  "reset (Some []) (validate_all
      [(Token tok_unknown [], [], []),
       (Token tok_unknown [], [Token tok_identifier ''x'', Token tok_semi '';''], ''x;'')] fresh)
   \<noteq> Inr (Some (join_lines [[], ''x;'']), fresh)"
  by (simp add: reset_def validate_def fresh_def Let_def split_beta)

text \<open>
  C9. \<open>reset\<close> fails only on a non-empty output argument (the assertion). After every
  other call of \<open>reset\<close>, with or without an output argument and whatever the state
  before, the stack is empty, the buffer is empty and the last verdict is \<open>complete\<close>:
  the validator is the freshly constructed one, so that any following call of
  \<open>validate\<close> gives the verdict and the state it gives on a fresh validator.
\<close>

theorem reset_gives_fresh_validator:
  "(reset c v = Inl e \<longleftrightarrow> (\<exists>s. c = Some s \<and> s \<noteq> [])) \<and>
   (reset c v = Inr (out, v') \<longrightarrow>
      parenStack v' = [] \<and> input v' = [] \<and> lastResult v' = complete \<and> v' = fresh \<and>
      validate tok0 ts code v' = validate tok0 ts code fresh)"
  by (cases e) (auto simp: reset_def fresh_def split: option.splits if_splits)

theorem reset_gives_fresh_validator_witness:
  "reset None (snd (validate (Token tok_unknown []) foo_call_toks ''foo(1, 2,'' fresh))
     = Inr (None, \<lparr>input = [], parenStack = [], lastResult = complete\<rparr>)
   \<and> validate (Token tok_unknown []) [Token tok_identifier ''x'', Token tok_semi '';''] ''x;''
        \<lparr>input = [], parenStack = [], lastResult = complete\<rparr>
     = validate (Token tok_unknown []) [Token tok_identifier ''x'', Token tok_semi '';''] ''x;''
        fresh"
proof -
  let ?v = "snd (validate (Token tok_unknown []) foo_call_toks ''foo(1, 2,'' fresh)"
  let ?v' = "\<lparr>input = [], parenStack = [], lastResult = complete\<rparr>"
  have 1: "reset None ?v = Inr (None, ?v')"
    by (simp add: reset_def)
  from reset_gives_fresh_validator
    [of None ?v AssertionFailed None ?v' "Token tok_unknown []"
        "[Token tok_identifier ''x'', Token tok_semi '';'']" "''x;''"] 1
  show ?thesis by blast
qed

text \<open>
  C10. The stack of every reachable validator holds only the kinds of the three
  opening brackets and of the hash; the kind \<open>less\<close> is not among them. Whatever the
  tokens and the stack, a pass of the loop body adds nothing but these four kinds to the
  stack, so no token pushes \<open>less\<close>; a pass on a stack of these kinds leaves such a
  stack, and on such a stack the condition under which a closing brace pops a template
  marker as well is false.
\<close>

theorem stack_holds_only_openers:
  "(reachable v \<longrightarrow>
      set (parenStack v) \<subseteq> opener_codes \<and> kind_code tok_less \<notin> set (parenStack v))
   \<and> set (fst (snd (snd (iteration ts' st' res')))) \<subseteq> set st' \<union> opener_codes
   \<and> (set st \<subseteq> opener_codes \<longrightarrow>
        set (fst (snd (snd (iteration ts st res)))) \<subseteq> opener_codes
        \<and> kind_code tok_less \<notin> set (fst (snd (snd (iteration ts st res))))
        \<and> \<not> pops_template k (butlast st))"
  using reachable_stack_ok [of v] less_not_opener_code iteration_stack_ok [of st ts res]
    stack_ok_no_template [of st k] iteration_stack_subset [of ts' st' res']
  by auto

theorem stack_holds_only_openers_witness:
  "reachable (snd (validate (Token tok_unknown []) (take 4 Foo_toks) ''Foo<Bar{'' fresh))
   \<and> parenStack (snd (validate (Token tok_unknown []) (take 4 Foo_toks) ''Foo<Bar{'' fresh))
       = [kind_code tok_l_brace]
   \<and> set [kind_code tok_l_brace] \<subseteq> opener_codes
   \<and> \<not> pops_template tok_r_brace (butlast [kind_code tok_l_brace])"
proof -
  let ?v = "snd (validate (Token tok_unknown []) (take 4 Foo_toks) ''Foo<Bar{'' fresh)"
  have 1: "reachable ?v"
    by (rule reach_validate [OF reach_fresh])
  have 2: "parenStack ?v = [kind_code tok_l_brace]"
    by (simp add: validate_Foo_brace)
  from stack_holds_only_openers
    [of ?v "[]" "[]" complete "[kind_code tok_l_brace]" "[Token tok_r_brace ''}'']" complete
        tok_r_brace] 1 2
  show ?thesis by simp
qed

end
